theory Spec2Isabelle
  imports Main "HOL-Library.Word"
begin

section \<open>Go slices over an explicit store\<close>

text \<open>
  \<^verbatim>\<open>common/alloc/buffer.go\<close> keeps two slices, \<^verbatim>\<open>head\<close> and \<^verbatim>\<open>Value\<close>, that may or
  may not share an underlying array, so the model has an explicit store: a list of
  arrays, an array being named by its position. A slice is a descriptor (array, first
  element, length, capacity); the nil slice has no array and capacity 0.

  Go's \<^verbatim>\<open>int\<close> is modelled by \<^typ>\<open>int\<close>: every integer of this file is a slice
  length, or an offset obtained from slice lengths, so on a path that does not panic no
  value leaves the 64-bit range. The \<^verbatim>\<open>[]byte\<close> arguments of \<^verbatim>\<open>Append\<close> and
  \<^verbatim>\<open>Prepend\<close> and the destination of \<^verbatim>\<open>Read\<close> are taken as values that do not
  overlap the arrays of the buffer.
\<close>

type_synonym byte = "8 word"

type_synonym memory = "byte list list"

record slice =
  base :: "nat option"
  low :: nat
  slen :: nat
  scap :: nat

datatype panic = SliceBounds | NegativeOffset | MakeSliceLen

definition nil_slice :: slice where
  "nil_slice = \<lparr>base = None, low = 0, slen = 0, scap = 0\<rparr>"

definition is_nil :: "slice \<Rightarrow> bool" where
  "is_nil s = (base s = None)"

text \<open>The slice expression \<^verbatim>\<open>s[lo:hi]\<close>: it panics unless \<^verbatim>\<open>0 <= lo <= hi <= cap(s)\<close>.\<close>

definition reslice :: "slice \<Rightarrow> int \<Rightarrow> int \<Rightarrow> panic + slice" where
  "reslice s lo hi =
     (if 0 \<le> lo \<and> lo \<le> hi \<and> hi \<le> int (scap s)
      then Inr \<lparr>base = base s, low = low s + nat lo, slen = nat (hi - lo),
                scap = scap s - nat lo\<rparr>
      else Inl SliceBounds)"

definition bytes_of :: "memory \<Rightarrow> slice \<Rightarrow> byte list" where
  "bytes_of m s =
     (case base s of None \<Rightarrow> [] | Some a \<Rightarrow> take (slen s) (drop (low s) (m ! a)))"

text \<open>Storing \<open>bs\<close> at the elements \<open>i, i + 1, ...\<close> of a slice.\<close>

definition store_bytes :: "memory \<Rightarrow> slice \<Rightarrow> nat \<Rightarrow> byte list \<Rightarrow> memory" where
  "store_bytes m s i bs =
     (case base s of
        None \<Rightarrow> m
      | Some a \<Rightarrow>
          m[a := take (low s + i) (m ! a) @ bs @ drop (low s + i + length bs) (m ! a)])"

text \<open>The builtin \<^verbatim>\<open>copy(dst, src)\<close>: it copies \<^verbatim>\<open>min(len(dst), len(src))\<close> bytes.\<close>

definition go_copy :: "memory \<Rightarrow> slice \<Rightarrow> byte list \<Rightarrow> memory \<times> nat" where
  "go_copy m dst src =
     (let n = min (slen dst) (length src) in (store_bytes m dst 0 (take n src), n))"

text \<open>
  Modelled from the spec: the capacity that the builtin \<^verbatim>\<open>append\<close> chooses when it must
  reallocate is fixed by the Go runtime, which is not part of the repository; the spec
  says "amortized doubling".
\<close>

definition grow_cap :: "nat \<Rightarrow> nat \<Rightarrow> nat" where
  "grow_cap old need = max need (2 * old)"

text \<open>
  The builtin \<^verbatim>\<open>append(s, d...)\<close>: within the capacity it writes behind the slice in the
  same array; beyond it, it moves the content to a fresh array, zero behind the content.
\<close>

definition go_append :: "memory \<Rightarrow> slice \<Rightarrow> byte list \<Rightarrow> memory \<times> slice" where
  "go_append m s d =
     (if slen s + length d \<le> scap s
      then (store_bytes m s (slen s) d, s\<lparr>slen := slen s + length d\<rparr>)
      else
        (let need = slen s + length d; c = grow_cap (scap s) need
         in (m @ [bytes_of m s @ d @ replicate (c - need) 0],
             \<lparr>base = Some (length m), low = 0, slen = need, scap = c\<rparr>)))"

section \<open>The buffer\<close>

definition defaultOffset :: int where
  "defaultOffset = 16"

record Buffer =
  head :: slice
  pool :: "nat option"
  Value :: slice
  offset :: int

text \<open>
  A method that can panic returns the panic, if any, together with the buffer as the
  panic leaves it: Go unwinds the stack and keeps the fields written before.
\<close>

definition CreateBuffer :: "slice \<Rightarrow> nat option \<Rightarrow> panic + Buffer" where
  "CreateBuffer container parent =
     (case reslice container defaultOffset (int (slen container)) of
        Inl e \<Rightarrow> Inl e
      | Inr v \<Rightarrow> Inr \<lparr>head = container, pool = parent, Value = v, offset = defaultOffset\<rparr>)"

definition Clear :: "Buffer \<Rightarrow> panic option \<times> Buffer" where
  "Clear b =
     (let b1 = b\<lparr>offset := defaultOffset\<rparr>
      in case reslice (head b1) (offset b1) (offset b1) of
           Inl e \<Rightarrow> (Some e, b1)
         | Inr v \<Rightarrow> (None, b1\<lparr>Value := v\<rparr>))"

definition Reset :: "Buffer \<Rightarrow> Buffer" where
  "Reset b = b\<lparr>offset := defaultOffset, Value := head b\<rparr>"

definition Append :: "byte list \<Rightarrow> memory \<times> Buffer \<Rightarrow> memory \<times> Buffer" where
  "Append data st =
     (case st of (m, b) \<Rightarrow>
        (case go_append m (Value b) data of (m', v) \<Rightarrow> (m', b\<lparr>Value := v\<rparr>)))"

definition SliceBack :: "int \<Rightarrow> Buffer \<Rightarrow> panic option \<times> Buffer" where
  "SliceBack k b =
     (let newoffset = offset b - k
      in if newoffset < 0 then (Some NegativeOffset, b)
         else (case reslice (head b) newoffset (offset b + int (slen (Value b))) of
                 Inl e \<Rightarrow> (Some e, b)
               | Inr v \<Rightarrow> (None, b\<lparr>Value := v, offset := newoffset\<rparr>)))"

definition Prepend :: "byte list \<Rightarrow> memory \<times> Buffer \<Rightarrow> panic option \<times> memory \<times> Buffer" where
  "Prepend data st =
     (case st of (m, b) \<Rightarrow>
        (case SliceBack (int (length data)) b of
           (Some e, b') \<Rightarrow> (Some e, m, b')
         | (None, b') \<Rightarrow> (None, fst (go_copy m (Value b') data), b')))"

definition Bytes :: "memory \<times> Buffer \<Rightarrow> byte list" where
  "Bytes st = (case st of (m, b) \<Rightarrow> bytes_of m (Value b))"



text \<open>\<^verbatim>\<open>Len\<close> accepts the nil receiver; the receiver is an optional buffer.\<close>

definition Len :: "Buffer option \<Rightarrow> int" where
  "Len r = (case r of None \<Rightarrow> 0 | Some b \<Rightarrow> int (slen (Value b)))"

definition IsEmpty :: "Buffer option \<Rightarrow> bool" where
  "IsEmpty r = (Len r = 0)"

definition IsFull :: "Buffer \<Rightarrow> bool" where
  "IsFull b = (slen (Value b) = scap (Value b))"

text \<open>\<^verbatim>\<open>Write\<close> appends and reports the whole length, with no error.\<close>

datatype io_error = EOF | SourceFailure nat

definition Write :: "byte list \<Rightarrow> memory \<times> Buffer \<Rightarrow> (int \<times> io_error option) \<times> memory \<times> Buffer" where
  "Write data st = ((int (length data), None), Append data st)"

text \<open>
  \<^verbatim>\<open>Read(data)\<close>: the destination is given by its length \<open>n\<close>; the result carries the
  count, the error and the bytes that \<^verbatim>\<open>copy\<close> stored at the front of the destination.
\<close>

definition Read ::
  "nat \<Rightarrow> memory \<times> Buffer \<Rightarrow> (panic + int \<times> io_error option \<times> byte list) \<times> Buffer" where
  "Read n st =
     (case st of (m, b) \<Rightarrow>
        if Len (Some b) = 0 then (Inr (0, Some EOF, []), b)
        else
          (let nBytes = min n (slen (Value b)); out = take nBytes (bytes_of m (Value b))
           in if int nBytes = Len (Some b)
              then (case Clear b of
                      (Some e, b') \<Rightarrow> (Inl e, b')
                    | (None, b') \<Rightarrow> (Inr (int nBytes, None, out), b'))
              else (case reslice (Value b) (int nBytes) (int (slen (Value b))) of
                      Inl e \<Rightarrow> (Inl e, b)
                    | Inr v \<Rightarrow>
                        (Inr (int nBytes, None, out),
                         b\<lparr>Value := v, offset := offset b + int nBytes\<rparr>))))"

text \<open>
  The \<^verbatim>\<open>io.Reader\<close> handed to \<^verbatim>\<open>FillFrom\<close> is outside the repository: it is a
  parameter that, for a destination of a given length, says which bytes it stored from
  the front of the destination, the count it reports and its error.
\<close>

type_synonym reader = "nat \<Rightarrow> byte list \<times> int \<times> io_error option"

definition FillFrom ::
  "reader \<Rightarrow> memory \<times> Buffer \<Rightarrow> (panic + int \<times> io_error option) \<times> memory \<times> Buffer" where
  "FillFrom rd st =
     (case st of (m, b) \<Rightarrow>
        (let begin = Len (Some b)
         in case reslice (Value b) 0 (int (scap (Value b))) of
              Inl e \<Rightarrow> (Inl e, m, b)
            | Inr v1 \<Rightarrow>
                (let b1 = b\<lparr>Value := v1\<rparr>
                 in case reslice (Value b1) begin (int (slen (Value b1))) of
                      Inl e \<Rightarrow> (Inl e, m, b1)
                    | Inr p \<Rightarrow>
                        (case rd (slen p) of (written, nBytes, err) \<Rightarrow>
                           (let m' = store_bytes m p 0 (take (slen p) written)
                            in case err of
                                 None \<Rightarrow>
                                   (case reslice (Value b1) 0 (begin + nBytes) of
                                      Inl e \<Rightarrow> (Inl e, m', b1)
                                    | Inr v2 \<Rightarrow> (Inr (nBytes, None), m', b1\<lparr>Value := v2\<rparr>))
                               | Some e \<Rightarrow> (Inr (nBytes, Some e), m', b1))))))"

section \<open>Pools\<close>

text \<open>
  Modelled from the spec: the \<^verbatim>\<open>Pool\<close> interface and its implementation are not in the
  source file. \<^verbatim>\<open>Free\<close> "returns the Buffer's BackingStore to the idle collection"; a
  pool is named by a number and the idle collections are a function of that name.
\<close>

type_synonym pools = "nat \<Rightarrow> slice list"

definition Free :: "pools \<Rightarrow> nat \<Rightarrow> Buffer \<Rightarrow> pools" where
  "Free ps p b = ps(p := head b # ps p)"

text \<open>\<^verbatim>\<open>Release\<close> accepts the nil receiver as well.\<close>

definition Release :: "Buffer option \<Rightarrow> pools \<Rightarrow> Buffer option \<times> pools" where
  "Release r ps =
     (case r of
        None \<Rightarrow> (None, ps)
      | Some b \<Rightarrow>
          if is_nil (head b) then (Some b, ps)
          else (Some (b\<lparr>head := nil_slice, Value := nil_slice, pool := None\<rparr>),
                (case pool b of None \<Rightarrow> ps | Some p \<Rightarrow> Free ps p b)))"

text \<open>
  The three pools and the constants \<^verbatim>\<open>SmallBufferSize\<close> and \<^verbatim>\<open>BufferSize\<close> are
  declared elsewhere in the package: \<^verbatim>\<open>Allocate\<close> and the two constants are parameters.
\<close>

datatype pool_name = smallPool | mediumPool | largePool

definition NewSmallBuffer :: "(pool_name \<Rightarrow> 'b) \<Rightarrow> 'b" where
  "NewSmallBuffer Allocate = Allocate smallPool"

definition NewBuffer :: "(pool_name \<Rightarrow> 'b) \<Rightarrow> 'b" where
  "NewBuffer Allocate = Allocate mediumPool"

definition NewLargeBuffer :: "(pool_name \<Rightarrow> 'b) \<Rightarrow> 'b" where
  "NewLargeBuffer Allocate = Allocate largePool"

definition NewBufferWithSize :: "int \<Rightarrow> int \<Rightarrow> (pool_name \<Rightarrow> 'b) \<Rightarrow> int \<Rightarrow> 'b" where
  "NewBufferWithSize SmallBufferSize BufferSize Allocate sz =
     (if sz \<le> SmallBufferSize then NewSmallBuffer Allocate
      else if sz \<le> BufferSize then NewBuffer Allocate
      else NewLargeBuffer Allocate)"

text \<open>\<^verbatim>\<open>make([]byte, size)\<close> gives a fresh zeroed array; a negative size panics.\<close>

definition make_bytes :: "memory \<Rightarrow> int \<Rightarrow> panic + memory \<times> slice" where
  "make_bytes m sz =
     (if sz < 0 then Inl MakeSliceLen
      else Inr (m @ [replicate (nat sz) 0],
                \<lparr>base = Some (length m), low = 0, slen = nat sz, scap = nat sz\<rparr>))"

definition NewLocalBuffer :: "int \<Rightarrow> memory \<Rightarrow> panic + memory \<times> Buffer" where
  "NewLocalBuffer sz m =
     (case make_bytes m sz of
        Inl e \<Rightarrow> Inl e
      | Inr (m', c) \<Rightarrow>
          (case CreateBuffer c None of Inl e \<Rightarrow> Inl e | Inr b \<Rightarrow> Inr (m', b)))"

section \<open>Well-formed states\<close>

text \<open>A slice is valid in a store when its array exists and holds its whole capacity.\<close>

definition valid_slice :: "memory \<Rightarrow> slice \<Rightarrow> bool" where
  "valid_slice m s =
     (slen s \<le> scap s \<and>
      (case base s of
         None \<Rightarrow> scap s = 0
       | Some a \<Rightarrow> a < length m \<and> low s + scap s \<le> length (m ! a)))"

text \<open>
  A live buffer is what \<^verbatim>\<open>CreateBuffer\<close> returns and the methods other than
  \<^verbatim>\<open>Release\<close> keep: the backing slice has an array with room for the 16 bytes of
  headroom, and both slices are valid.
\<close>

definition live :: "memory \<Rightarrow> Buffer \<Rightarrow> bool" where
  "live m b =
     (\<not> is_nil (head b) \<and> 16 \<le> scap (head b) \<and>
      valid_slice m (head b) \<and> valid_slice m (Value b))"

text \<open>The window is the part \<^verbatim>\<open>head[offset : offset+Len]\<close> of the backing slice.\<close>

definition window_in_head :: "Buffer \<Rightarrow> bool" where
  "window_in_head b =
     (reslice (head b) (offset b) (offset b + int (slen (Value b))) = Inr (Value b))"

text \<open>The capacity of a size class, the three capacities being parameters.\<close>

definition class_capacity :: "int \<Rightarrow> int \<Rightarrow> int \<Rightarrow> pool_name \<Rightarrow> int" where
  "class_capacity S M L c = (case c of smallPool \<Rightarrow> S | mediumPool \<Rightarrow> M | largePool \<Rightarrow> L)"

text \<open>The buffer that \<^verbatim>\<open>NewLocalBuffer(32)\<close> returns in the empty store.\<close>

definition local32 :: Buffer where
  "local32 =
     \<lparr>head = \<lparr>base = Some 0, low = 0, slen = 32, scap = 32\<rparr>, pool = None,
      Value = \<lparr>base = Some 0, low = 16, slen = 16, scap = 16\<rparr>, offset = 16\<rparr>"

text \<open>A buffer of 32 bytes that holds the five bytes of "hello" behind the headroom.\<close>

definition hello_mem :: memory where
  "hello_mem = [replicate 16 0 @ [104, 101, 108, 108, 111] @ replicate 11 0]"

definition hello_buf :: Buffer where
  "hello_buf =
     \<lparr>head = \<lparr>base = Some 0, low = 0, slen = 32, scap = 32\<rparr>, pool = None,
      Value = \<lparr>base = Some 0, low = 16, slen = 5, scap = 16\<rparr>, offset = 16\<rparr>"

text \<open>
  Draining with a destination of \<open>n\<close> bytes: \<^verbatim>\<open>Read\<close> is called until it reports an
  error, each result being collected. With \<open>n = 0\<close> and a buffer that holds bytes the
  loop never ends, which is the value \<open>None\<close>.
\<close>

partial_function (option) drain ::
  "nat \<Rightarrow> byte list \<Rightarrow> memory \<times> Buffer \<Rightarrow> (panic + byte list \<times> Buffer) option" where
  "drain n acc st =
     (case Read n st of
        (Inl e, b') \<Rightarrow> Some (Inl e)
      | (Inr (k, Some err, out), b') \<Rightarrow> Some (Inr (acc, b'))
      | (Inr (k, None, out), b') \<Rightarrow> drain n (acc @ out) (fst st, b'))"

text \<open>The capacity behind a slice, as the slice \<^verbatim>\<open>v[len(v):cap(v)]\<close>.\<close>

definition tail_room :: "slice \<Rightarrow> slice" where
  "tail_room v =
     \<lparr>base = base v, low = low v + slen v, slen = scap v - slen v, scap = scap v - slen v\<rparr>"

text \<open>
  Two readers: one offers the bytes 33, 34, 35 and no error, the other reads nothing and
  fails.
\<close>

definition three_bytes :: reader where
  "three_bytes n = (take n [33, 34, 35], int (min n 3), None)"

definition failing :: reader where
  "failing n = ([], 0, Some (SourceFailure 1))"

text \<open>
  The buffer \<^verbatim>\<open>NewLocalBuffer(32)\<close> after \<^verbatim>\<open>Clear\<close>, and the state after it has
  appended 20 bytes, four more than the capacity behind its window.
\<close>

definition cleared32 :: Buffer where
  "cleared32 =
     \<lparr>head = \<lparr>base = Some 0, low = 0, slen = 32, scap = 32\<rparr>, pool = None,
      Value = \<lparr>base = Some 0, low = 16, slen = 0, scap = 16\<rparr>, offset = 16\<rparr>"


text \<open>
  Prepending a sequence of chunks, one \<^verbatim>\<open>Prepend\<close> after the other; the first panic ends
  the sequence.
\<close>

fun prepend_all ::
  "byte list list \<Rightarrow> memory \<times> Buffer \<Rightarrow> panic option \<times> memory \<times> Buffer" where
  "prepend_all [] st = (None, st)"
| "prepend_all (c # cs) st =
     (case Prepend c st of
        (Some e, st') \<Rightarrow> (Some e, st')
      | (None, st') \<Rightarrow> prepend_all cs st')"

section \<open>Properties\<close>

subsection \<open>Basic facts\<close>

lemma NewLocalBuffer_32: "NewLocalBuffer 32 [] = Inr ([replicate 32 0], local32)"
  by (simp add: NewLocalBuffer_def make_bytes_def CreateBuffer_def reslice_def
      defaultOffset_def local32_def)

lemma valid_base_less: "valid_slice m s \<Longrightarrow> base s \<noteq> Some (length m)"
  by (auto simp: valid_slice_def split: option.splits)

lemma window_in_headD:
  assumes "window_in_head b"
  shows "0 \<le> offset b" and "offset b + int (slen (Value b)) \<le> int (scap (head b))"
    and "base (Value b) = base (head b)"
    and "low (Value b) = low (head b) + nat (offset b)"
    and "scap (Value b) = scap (head b) - nat (offset b)"
proof -
  let ?v = "\<lparr>base = base (head b), low = low (head b) + nat (offset b),
             slen = nat (offset b + int (slen (Value b)) - offset b),
             scap = scap (head b) - nat (offset b)\<rparr>"
  from assms have c: "0 \<le> offset b \<and> offset b + int (slen (Value b)) \<le> int (scap (head b))"
    and e: "Value b = ?v"
    by (auto simp: window_in_head_def reslice_def split: if_splits)
  show "0 \<le> offset b" and "offset b + int (slen (Value b)) \<le> int (scap (head b))"
    using c by simp_all
  show "base (Value b) = base (head b)" by (subst e) simp
  show "low (Value b) = low (head b) + nat (offset b)" by (subst e) simp
  show "scap (Value b) = scap (head b) - nat (offset b)" by (subst e) simp
qed

lemma local32_window: "window_in_head local32"
  by (simp add: window_in_head_def reslice_def local32_def)

lemma local32_valid: "valid_slice [replicate 32 0] (Value local32)"
  by (simp add: valid_slice_def local32_def)

subsection \<open>Nil receivers\<close>

text \<open>
  Claim C9. \<^verbatim>\<open>Len\<close> and \<^verbatim>\<open>Release\<close> are total on an absent buffer: on the nil
  receiver \<^verbatim>\<open>Len\<close> is 0, so \<^verbatim>\<open>IsEmpty\<close> is true, and \<^verbatim>\<open>Release\<close> returns with
  the receiver still nil and every pool as it was.
\<close>

theorem nil_receiver_total:
  "Len None = 0 \<and> IsEmpty None \<and> Release None ps = (None, ps)"
  by (simp add: Len_def IsEmpty_def Release_def)

subsection \<open>Release\<close>

text \<open>
  Claim C3. \<^verbatim>\<open>Release\<close> of a buffer that has a backing slice clears the backing slice,
  the window and the pool reference, and hands the backing slice to the pool of the
  buffer once, if it has one. A second \<^verbatim>\<open>Release\<close> changes neither the buffer nor any
  pool.
\<close>

theorem Release_clears_and_is_idempotent:
  assumes "\<not> is_nil (head b)" and "Release (Some b) ps = (r, ps1)"
  shows "r = Some (b\<lparr>head := nil_slice, Value := nil_slice, pool := None\<rparr>) \<and>
         is_nil (head (the r)) \<and> is_nil (Value (the r)) \<and> pool (the r) = None \<and>
         ps1 = (case pool b of None \<Rightarrow> ps | Some p \<Rightarrow> ps(p := head b # ps p)) \<and>
         Release r ps1 = (r, ps1)"
  using assms by (auto simp: Release_def is_nil_def nil_slice_def Free_def split: option.splits)

theorem Release_clears_and_is_idempotent_witness:
  "\<not> is_nil (head (local32\<lparr>pool := Some 0\<rparr>)) \<and>
   Release (Some (local32\<lparr>pool := Some 0\<rparr>)) (\<lambda>p. []) =
     (Some (local32\<lparr>head := nil_slice, Value := nil_slice, pool := None\<rparr>),
      (\<lambda>p. [])(0 := [head local32])) \<and>
   Release (Some (local32\<lparr>head := nil_slice, Value := nil_slice, pool := None\<rparr>))
     ((\<lambda>p. [])(0 := [head local32])) =
     (Some (local32\<lparr>head := nil_slice, Value := nil_slice, pool := None\<rparr>),
      (\<lambda>p. [])(0 := [head local32]))"
proof -
  have h: "\<not> is_nil (head (local32\<lparr>pool := Some 0\<rparr>))"
    by (simp add: is_nil_def local32_def)
  have r: "Release (Some (local32\<lparr>pool := Some 0\<rparr>)) (\<lambda>p. []) =
     (Some (local32\<lparr>head := nil_slice, Value := nil_slice, pool := None\<rparr>),
      (\<lambda>p. [])(0 := [head local32]))"
    by (simp add: Release_def is_nil_def local32_def Free_def)
  show ?thesis using h r Release_clears_and_is_idempotent [OF h r] by blast
qed

subsection \<open>The size-class dispatcher\<close>

text \<open>
  Claim C8, as stated: for every requested size the dispatcher returns a buffer of the
  smallest class whose capacity covers the size. With the capacities of 1K, 8K and 64K
  bytes that the source names, the size 70000 gets the large class, which does not cover
  it.
\<close>

theorem NewBufferWithSize_counterexample:
  "NewBufferWithSize 1024 8192 id 70000 = largePool \<and>
   \<not> (70000 \<le> class_capacity 1024 8192 65536 (NewBufferWithSize 1024 8192 id 70000))"
  by (simp add: NewBufferWithSize_def NewSmallBuffer_def NewBuffer_def NewLargeBuffer_def
      class_capacity_def)

text \<open>
  Claim C8, amended. With the class capacities in increasing order, \<^verbatim>\<open>NewBufferWithSize\<close>
  allocates from the small pool for a size up to the small capacity, from the medium pool
  for a larger size up to the medium capacity and from the large pool for every larger
  size. For a size up to the large capacity that is the smallest class that covers the
  size; a size beyond the large capacity is covered by no class and still gets the large
  class.
\<close>

theorem NewBufferWithSize_smallest_class:
  assumes "S \<le> M" and "M \<le> L"
  shows "(sz \<le> S \<longrightarrow> NewBufferWithSize S M Allocate sz = Allocate smallPool) \<and>
         (S < sz \<and> sz \<le> M \<longrightarrow> NewBufferWithSize S M Allocate sz = Allocate mediumPool) \<and>
         (M < sz \<longrightarrow> NewBufferWithSize S M Allocate sz = Allocate largePool) \<and>
         (sz \<le> L \<longrightarrow> sz \<le> class_capacity S M L (NewBufferWithSize S M id sz)) \<and>
         (\<forall>c. sz \<le> class_capacity S M L c \<longrightarrow>
              class_capacity S M L (NewBufferWithSize S M id sz) \<le> class_capacity S M L c) \<and>
         (L < sz \<longrightarrow>
            NewBufferWithSize S M Allocate sz = Allocate largePool \<and>
            (\<forall>c. \<not> sz \<le> class_capacity S M L c))"
proof -
  have "\<And>c. sz \<le> class_capacity S M L c \<Longrightarrow>
       class_capacity S M L (NewBufferWithSize S M id sz) \<le> class_capacity S M L c"
    using assms
    by (auto simp: NewBufferWithSize_def NewSmallBuffer_def NewBuffer_def NewLargeBuffer_def
        class_capacity_def split: pool_name.splits)
  moreover have "\<And>c. L < sz \<Longrightarrow> \<not> sz \<le> class_capacity S M L c"
    using assms by (auto simp: class_capacity_def split: pool_name.splits)
  ultimately show ?thesis using assms
    by (auto simp: NewBufferWithSize_def NewSmallBuffer_def NewBuffer_def NewLargeBuffer_def
        class_capacity_def)
qed

theorem NewBufferWithSize_smallest_class_witness:
  "(1024::int) \<le> 8192 \<and> (8192::int) \<le> 65536 \<and>
   NewBufferWithSize 1024 8192 id 1024 = smallPool \<and>
   NewBufferWithSize 1024 8192 id 1025 = mediumPool \<and>
   NewBufferWithSize 1024 8192 id 8193 = largePool \<and>
   (1025::int) \<le> class_capacity 1024 8192 65536 (NewBufferWithSize 1024 8192 id 1025)"
  using NewBufferWithSize_smallest_class [of 1024 8192 65536 1024 id]
    NewBufferWithSize_smallest_class [of 1024 8192 65536 1025 id]
    NewBufferWithSize_smallest_class [of 1024 8192 65536 8193 id]
  by (simp add: class_capacity_def)

subsection \<open>IsFull\<close>

text \<open>
  Claim C7, as stated: \<^verbatim>\<open>IsFull\<close> is true exactly when the window length equals the
  capacity of the backing store. The buffer that \<^verbatim>\<open>NewLocalBuffer(32)\<close> returns is
  full with a window of 16 bytes over a store of 32.
\<close>

theorem IsFull_counterexample:
  "\<not> (IsFull local32 \<longleftrightarrow> Len (Some local32) = int (scap (head local32)))"
  by (simp add: IsFull_def Len_def local32_def)

text \<open>
  Claim C7, amended. For a window that lies in the backing slice, \<^verbatim>\<open>IsFull\<close> is true
  exactly when the window ends where the capacity of the backing slice ends
  (\<open>offset + Len = C\<close>), and that is exactly when appending one byte moves the window to
  a new array.
\<close>

theorem IsFull_no_tail_room:
  assumes "window_in_head b" and "valid_slice m (Value b)"
  shows "(IsFull b \<longleftrightarrow> offset b + Len (Some b) = int (scap (head b))) \<and>
         (IsFull b \<longleftrightarrow> base (Value (snd (Append [x] (m, b)))) = Some (length m)) \<and>
         (IsFull b \<longleftrightarrow> base (Value (snd (Append [x] (m, b)))) \<noteq> base (Value b))"
proof -
  have a: "IsFull b \<longleftrightarrow> offset b + Len (Some b) = int (scap (head b))"
    using window_in_headD [OF assms(1)]
    by (auto simp: IsFull_def Len_def)
  have nb: "base (Value b) \<noteq> Some (length m)"
    using assms(2) by (rule valid_base_less)
  have le: "slen (Value b) \<le> scap (Value b)"
    using assms(2) by (simp add: valid_slice_def)
  have c: "IsFull b \<longleftrightarrow> base (Value (snd (Append [x] (m, b)))) = Some (length m)"
    using nb le
    by (auto simp: IsFull_def Append_def go_append_def Let_def)
  have e: "IsFull b \<longleftrightarrow> base (Value (snd (Append [x] (m, b)))) \<noteq> base (Value b)"
    using nb le
    by (auto simp: IsFull_def Append_def go_append_def Let_def)
  show ?thesis using a c e by blast
qed

theorem IsFull_no_tail_room_witness:
  "window_in_head local32 \<and> valid_slice [replicate 32 0] (Value local32) \<and>
   IsFull local32 \<and> offset local32 + Len (Some local32) = int (scap (head local32)) \<and>
   base (Value (snd (Append [7] ([replicate 32 0], local32)))) = Some 1"
  using IsFull_no_tail_room [OF local32_window local32_valid, of 7]
    local32_window local32_valid
  by (simp add: IsFull_def local32_def)

subsection \<open>Slices and the store\<close>

lemma length_bytes_of: "valid_slice m s \<Longrightarrow> length (bytes_of m s) = slen s"
  by (auto simp: valid_slice_def bytes_of_def split: option.splits)

lemma reslice_Inr:
  "0 \<le> lo \<Longrightarrow> lo \<le> hi \<Longrightarrow> hi \<le> int (scap s) \<Longrightarrow>
   reslice s lo hi =
     Inr \<lparr>base = base s, low = low s + nat lo, slen = nat (hi - lo), scap = scap s - nat lo\<rparr>"
  by (simp add: reslice_def)


lemma bytes_of_reslice:
  assumes "valid_slice m s" and "reslice s lo hi = Inr v" and "hi \<le> int (slen s)"
  shows "bytes_of m v = take (nat (hi - lo)) (drop (nat lo) (bytes_of m s))"
proof -
  from assms(2) have c: "0 \<le> lo" "lo \<le> hi" "hi \<le> int (scap s)"
    and v: "v = \<lparr>base = base s, low = low s + nat lo, slen = nat (hi - lo),
                  scap = scap s - nat lo\<rparr>"
    by (auto simp: reslice_def split: if_splits)
  have m: "min (nat (hi - lo)) (slen s - nat lo) = nat (hi - lo)"
    using c assms(3) by linarith
  show ?thesis
    by (cases "base s") (simp_all add: v bytes_of_def drop_take m add.commute)
qed


lemma Clear_live:
  assumes "16 \<le> scap (head b)"
  shows "Clear b =
    (None, b\<lparr>offset := 16,
               Value := \<lparr>base = base (head b), low = low (head b) + 16, slen = 0,
                          scap = scap (head b) - 16\<rparr>\<rparr>)"
  using assms by (simp add: Clear_def defaultOffset_def reslice_def Let_def)

lemma live_Clear: "live m b \<Longrightarrow> live m (snd (Clear b))"
  by (auto simp: live_def Clear_live valid_slice_def split: option.splits)

lemma Bytes_Clear: "live m b \<Longrightarrow> Bytes (m, snd (Clear b)) = []"
  by (simp add: live_def Clear_live Bytes_def bytes_of_def split: option.splits)

lemma Read_empty:
  "slen (Value b) = 0 \<Longrightarrow> Read n (m, b) = (Inr (0, Some EOF, []), b)"
  by (simp add: Read_def Len_def)

lemma Read_all:
  assumes "live m b" and "slen (Value b) \<noteq> 0" and "slen (Value b) \<le> n"
  shows "Read n (m, b) = (Inr (int (slen (Value b)), None, bytes_of m (Value b)), snd (Clear b))"
proof -
  have l: "length (bytes_of m (Value b)) = slen (Value b)"
    using assms(1) by (simp add: live_def length_bytes_of)
  have h: "16 \<le> scap (head b)"
    using assms(1) by (simp add: live_def)
  have mn: "min n (slen (Value b)) = slen (Value b)" using assms(3) by simp
  have t: "take (slen (Value b)) (bytes_of m (Value b)) = bytes_of m (Value b)"
    using l by simp
  show ?thesis
    using assms(2) by (simp add: Read_def Len_def mn Let_def Clear_live [OF h] t)
qed

lemma Read_part:
  assumes "live m b" and "n < slen (Value b)"
  shows "Read n (m, b) =
     (Inr (int n, None, take n (bytes_of m (Value b))),
      b\<lparr>Value := \<lparr>base = base (Value b), low = low (Value b) + n,
                     slen = slen (Value b) - n, scap = scap (Value b) - n\<rparr>,
         offset := offset b + int n\<rparr>)"
proof -
  have le: "slen (Value b) \<le> scap (Value b)"
    using assms(1) by (simp add: live_def valid_slice_def)
  have mn: "min n (slen (Value b)) = n" using assms(2) by simp
  have r: "reslice (Value b) (int n) (int (slen (Value b))) =
     Inr \<lparr>base = base (Value b), low = low (Value b) + n,
          slen = slen (Value b) - n, scap = scap (Value b) - n\<rparr>"
    using assms(2) le by (simp add: reslice_def nat_diff_distrib')
  show ?thesis using assms(2)
    by (simp add: Read_def Len_def mn Let_def r)
qed


lemma live_Read_part:
  assumes "live m b" and "n < slen (Value b)"
  shows "live m (snd (Read n (m, b)))"
  using assms
  by (auto simp: Read_part live_def valid_slice_def split: option.splits)

lemma Bytes_Read_part:
  assumes "live m b" and "n < slen (Value b)"
  shows "Bytes (m, snd (Read n (m, b))) = drop n (Bytes (m, b))"
  using assms
  by (auto simp: Read_part Bytes_def bytes_of_def drop_take add.commute split: option.splits)

subsection \<open>Read\<close>

text \<open>
  Claim C5, amended. On a live buffer that holds \<open>L\<close> bytes, \<^verbatim>\<open>Read\<close> into a
  destination of \<open>n\<close> bytes reports \<open>min n L\<close> bytes, which are the first bytes of the
  window, and leaves the rest of the window, \<open>L - min n L\<close> bytes. While bytes remain
  (\<open>n < L\<close>) the offset advances by \<open>n\<close>; a read that takes everything (\<open>n \<ge> L\<close>)
  clears the buffer, so the empty window is back at offset 16 instead of advanced. On an
  empty window it reports 0 bytes with \<^verbatim>\<open>io.EOF\<close> and changes nothing.
\<close>

theorem Read_drains_front:
  assumes "live m b"
  shows "(Len (Some b) = 0 \<longrightarrow> Read n (m, b) = (Inr (0, Some EOF, []), b)) \<and>
         (Len (Some b) \<noteq> 0 \<longrightarrow>
            fst (Read n (m, b)) =
              Inr (min (int n) (Len (Some b)), None, take n (Bytes (m, b))) \<and>
            int (length (take n (Bytes (m, b)))) = min (int n) (Len (Some b)) \<and>
            Bytes (m, snd (Read n (m, b))) = drop n (Bytes (m, b)) \<and>
            Len (Some (snd (Read n (m, b)))) = Len (Some b) - min (int n) (Len (Some b)) \<and>
            offset (snd (Read n (m, b))) =
              (if int n < Len (Some b) then offset b + int n else defaultOffset) \<and>
            live m (snd (Read n (m, b))))"
proof (cases "slen (Value b) = 0")
  case True
  then show ?thesis by (simp add: Read_empty Len_def)
next
  case False
  have l: "length (bytes_of m (Value b)) = slen (Value b)"
    using assms by (simp add: live_def length_bytes_of)
  have h: "16 \<le> scap (head b)"
    using assms by (simp add: live_def)
  show ?thesis
  proof (cases "n < slen (Value b)")
    case True
    have 1: "fst (Read n (m, b)) =
        Inr (min (int n) (Len (Some b)), None, take n (Bytes (m, b)))"
      using True by (simp add: Read_part [OF assms True] Len_def Bytes_def)
    have 2: "int (length (take n (Bytes (m, b)))) = min (int n) (Len (Some b))"
      using True l by (simp add: Len_def Bytes_def)
    have 3: "Len (Some (snd (Read n (m, b)))) = Len (Some b) - min (int n) (Len (Some b))"
      using True by (simp add: Read_part [OF assms True] Len_def)
    have 4: "offset (snd (Read n (m, b))) =
        (if int n < Len (Some b) then offset b + int n else defaultOffset)"
      using True by (simp add: Read_part [OF assms True] Len_def)
    show ?thesis
      using False 1 2 3 4 Bytes_Read_part [OF assms True] live_Read_part [OF assms True]
      by (simp add: Len_def)
  next
    case ge: False
    then have le: "slen (Value b) \<le> n" by simp
    note r = Read_all [OF assms False le]
    have 1: "fst (Read n (m, b)) =
        Inr (min (int n) (Len (Some b)), None, take n (Bytes (m, b)))"
      using le l by (simp add: r Len_def Bytes_def)
    have 2: "int (length (take n (Bytes (m, b)))) = min (int n) (Len (Some b))"
      using le l by (simp add: Len_def Bytes_def)
    have 3: "Len (Some (snd (Read n (m, b)))) = Len (Some b) - min (int n) (Len (Some b))"
      using le by (simp add: r Len_def Clear_live [OF h])
    have 4: "offset (snd (Read n (m, b))) =
        (if int n < Len (Some b) then offset b + int n else defaultOffset)"
      using le by (simp add: r Len_def Clear_live [OF h] defaultOffset_def)
    have 5: "Bytes (m, snd (Read n (m, b))) = drop n (Bytes (m, b))"
      using le l Bytes_Clear [OF assms] by (simp add: r Bytes_def)
    have 6: "live m (snd (Read n (m, b)))"
      using live_Clear [OF assms] by (simp add: r)
    show ?thesis
      using False 1 2 3 4 5 6 by (simp add: Len_def)
  qed
qed

lemma hello_live: "live hello_mem hello_buf"
  by (simp add: live_def valid_slice_def is_nil_def hello_mem_def hello_buf_def)

lemma hello_Read_1:
  "Read 3 (hello_mem, hello_buf) =
     (Inr (3, None, [104, 101, 108]),
      hello_buf\<lparr>Value := \<lparr>base = Some 0, low = 19, slen = 2, scap = 13\<rparr>, offset := 19\<rparr>)"
  by (simp add: Read_def Len_def Let_def reslice_def bytes_of_def hello_mem_def hello_buf_def)

lemma hello_Read_2:
  "Read 3 (hello_mem,
       hello_buf\<lparr>Value := \<lparr>base = Some 0, low = 19, slen = 2, scap = 13\<rparr>, offset := 19\<rparr>) =
     (Inr (2, None, [108, 111]),
      hello_buf\<lparr>Value := \<lparr>base = Some 0, low = 16, slen = 0, scap = 16\<rparr>, offset := 16\<rparr>)"
  by (simp add: Read_def Len_def Let_def reslice_def bytes_of_def Clear_def defaultOffset_def
      hello_mem_def hello_buf_def)

lemma hello_Read_3:
  "Read 3 (hello_mem,
       hello_buf\<lparr>Value := \<lparr>base = Some 0, low = 16, slen = 0, scap = 16\<rparr>, offset := 16\<rparr>) =
     (Inr (0, Some EOF, []),
      hello_buf\<lparr>Value := \<lparr>base = Some 0, low = 16, slen = 0, scap = 16\<rparr>, offset := 16\<rparr>)"
  by (simp add: Read_def Len_def)

theorem Read_drains_front_witness:
  "live hello_mem hello_buf \<and> Len (Some hello_buf) = 5 \<and>
   Bytes (hello_mem, hello_buf) = [104, 101, 108, 108, 111] \<and>
   fst (Read 3 (hello_mem, hello_buf)) = Inr (3, None, [104, 101, 108]) \<and>
   Len (Some (snd (Read 3 (hello_mem, hello_buf)))) = 2 \<and>
   Bytes (hello_mem, snd (Read 3 (hello_mem, hello_buf))) = [108, 111] \<and>
   fst (Read 3 (hello_mem, snd (Read 3 (hello_mem, hello_buf)))) = Inr (2, None, [108, 111]) \<and>
   fst (Read 3 (hello_mem, snd (Read 3 (hello_mem, snd (Read 3 (hello_mem, hello_buf)))))) =
     Inr (0, Some EOF, [])"
proof -
  have l: "Len (Some hello_buf) = 5"
    by (simp add: Len_def hello_buf_def)
  have b: "Bytes (hello_mem, hello_buf) = [104, 101, 108, 108, 111]"
    by (simp add: Bytes_def bytes_of_def hello_mem_def hello_buf_def)
  have t: "Len (Some (snd (Read 3 (hello_mem, hello_buf)))) = 2 \<and>
      Bytes (hello_mem, snd (Read 3 (hello_mem, hello_buf))) = [108, 111]"
    using Read_drains_front [OF hello_live, of 3] by (simp add: l b)
  show ?thesis
    using hello_live l b t by (simp add: hello_Read_1 hello_Read_2 hello_Read_3)
qed

text \<open>
  Claim C5, as stated: every read advances the start of the window by the number of bytes
  it returns. The buffer of 32 bytes that holds the five bytes of "hello" at offset 16
  returns all five to a destination of five bytes, and its offset is then 16, not 21.
\<close>

theorem Read_advances_start_counterexample:
  "fst (Read 5 (hello_mem, hello_buf)) = Inr (5, None, [104, 101, 108, 108, 111]) \<and>
   offset hello_buf = 16 \<and> offset (snd (Read 5 (hello_mem, hello_buf))) = 16 \<and>
   \<not> (offset (snd (Read 5 (hello_mem, hello_buf))) = offset hello_buf + 5)"
  by (simp add: Read_def Len_def Let_def reslice_def bytes_of_def Clear_def defaultOffset_def
      hello_mem_def hello_buf_def)

subsection \<open>Append and the drain loop\<close>

lemma length_store_bytes: "length (store_bytes m s i bs) = length m"
  by (simp add: store_bytes_def split: option.splits)

lemma store_bytes_other:
  "base s \<noteq> Some a \<Longrightarrow> store_bytes m s i bs ! a = m ! a"
  by (auto simp: store_bytes_def split: option.splits)

lemma length_store_bytes_nth:
  assumes "base s = Some a" and "a < length m" and "low s + i + length bs \<le> length (m ! a)"
  shows "length (store_bytes m s i bs ! a) = length (m ! a)"
  using assms by (simp add: store_bytes_def)

lemma valid_slice_store:
  assumes "valid_slice m t" and "valid_slice m s" and "i + length bs \<le> scap s"
  shows "valid_slice (store_bytes m s i bs) t"
proof (cases "base s")
  case None
  then show ?thesis using assms(1) by (simp add: store_bytes_def)
next
  case (Some a)
  have a: "a < length m" and f: "low s + i + length bs \<le> length (m ! a)"
    using assms(2,3) Some by (auto simp: valid_slice_def)
  show ?thesis
  proof (cases "base t = Some a")
    case True
    then show ?thesis
      using assms(1) length_store_bytes_nth [OF Some a f]
      by (simp add: valid_slice_def length_store_bytes)
  next
    case False
    then have "\<And>x. base t = Some x \<Longrightarrow> store_bytes m s i bs ! x = m ! x"
      using Some by (simp add: store_bytes_other)
    then show ?thesis
      using assms(1)
      by (auto simp: valid_slice_def length_store_bytes split: option.splits)
  qed
qed

lemma bytes_of_store_behind:
  assumes "valid_slice m s" and "slen s + length d \<le> scap s"
  shows "bytes_of (store_bytes m s (slen s) d) (s\<lparr>slen := slen s + length d\<rparr>) =
         bytes_of m s @ d"
proof (cases "base s")
  case None
  then show ?thesis using assms by (simp add: valid_slice_def bytes_of_def)
next
  case (Some a)
  let ?arr = "m ! a"
  have a: "a < length m" and f: "low s + scap s \<le> length ?arr"
    using assms(1) Some by (auto simp: valid_slice_def)
  have 1: "drop (low s) (take (low s + slen s) ?arr) = take (slen s) (drop (low s) ?arr)"
    by (simp add: drop_take)
  have 2: "length (take (slen s) (drop (low s) ?arr)) = slen s"
    using f assms(2) by simp
  have 3: "low s \<le> length (take (low s + slen s) ?arr)"
    using f assms(2) by simp
  have 4: "drop (low s) (take (low s + slen s) ?arr @ d @ drop (low s + slen s + length d) ?arr) =
      take (slen s) (drop (low s) ?arr) @ d @ drop (low s + slen s + length d) ?arr"
    using 3 by (simp add: 1)
  have e: "store_bytes m s (slen s) d ! a =
      take (low s + slen s) ?arr @ d @ drop (low s + slen s + length d) ?arr"
    using a by (simp add: Some store_bytes_def)
  have "bytes_of (store_bytes m s (slen s) d) (s\<lparr>slen := slen s + length d\<rparr>) =
      take (slen s + length d) (drop (low s) (store_bytes m s (slen s) d ! a))"
    by (simp add: Some bytes_of_def)
  also have "\<dots> = take (slen s + length d)
        (take (slen s) (drop (low s) ?arr) @ d @ drop (low s + slen s + length d) ?arr)"
    by (simp only: e 4)
  also have "\<dots> = take (slen s) (drop (low s) ?arr) @ d"
    using 2 by simp
  finally show ?thesis by (simp add: Some bytes_of_def)
qed


lemma Append_in_place:
  assumes "slen (Value b) + length d \<le> scap (Value b)"
  shows "Append d (m, b) =
     (store_bytes m (Value b) (slen (Value b)) d,
      b\<lparr>Value := (Value b)\<lparr>slen := slen (Value b) + length d\<rparr>\<rparr>)"
  using assms by (simp add: Append_def go_append_def)

lemma Append_grown:
  assumes "\<not> slen (Value b) + length d \<le> scap (Value b)"
  shows "Append d (m, b) =
     (m @ [bytes_of m (Value b) @ d @
           replicate (grow_cap (scap (Value b)) (slen (Value b) + length d) -
                      (slen (Value b) + length d)) 0],
      b\<lparr>Value := \<lparr>base = Some (length m), low = 0, slen = slen (Value b) + length d,
                     scap = grow_cap (scap (Value b)) (slen (Value b) + length d)\<rparr>\<rparr>)"
  using assms by (simp add: Append_def go_append_def Let_def)

lemma Append_fields:
  "head (snd (Append d (m, b))) = head b \<and> offset (snd (Append d (m, b))) = offset b \<and>
   pool (snd (Append d (m, b))) = pool b"
  by (cases "slen (Value b) + length d \<le> scap (Value b)")
    (simp_all add: Append_in_place Append_grown)

lemma valid_slice_extend: "valid_slice m t \<Longrightarrow> valid_slice (m @ [x]) t"
  by (auto simp: valid_slice_def nth_append split: option.splits)

lemma Bytes_Append:
  assumes "valid_slice m (Value b)"
  shows "Bytes (Append d (m, b)) = Bytes (m, b) @ d"
proof (cases "slen (Value b) + length d \<le> scap (Value b)")
  case True
  then show ?thesis
    using bytes_of_store_behind [OF assms True]
    by (simp add: Append_in_place Bytes_def)
next
  case False
  have l: "length (bytes_of m (Value b)) = slen (Value b)"
    using assms by (rule length_bytes_of)
  show ?thesis
    using l by (simp add: Append_grown [OF False] Bytes_def bytes_of_def)
qed

lemma live_Append:
  assumes "live m b"
  shows "live (fst (Append d (m, b))) (snd (Append d (m, b)))"
proof (cases "slen (Value b) + length d \<le> scap (Value b)")
  case True
  have v: "valid_slice m (Value b)" and h: "valid_slice m (head b)"
    using assms by (simp_all add: live_def)
  have 1: "valid_slice (store_bytes m (Value b) (slen (Value b)) d) (head b)"
    using h v True by (rule valid_slice_store)
  have 2: "valid_slice (store_bytes m (Value b) (slen (Value b)) d) (Value b)"
    using v v True by (rule valid_slice_store)
  have 3: "valid_slice (store_bytes m (Value b) (slen (Value b)) d)
      ((Value b)\<lparr>slen := slen (Value b) + length d\<rparr>)"
    using 2 True by (auto simp: valid_slice_def split: option.splits)
  show ?thesis
    using assms 1 3 by (simp add: Append_in_place [OF True] live_def)
next
  case False
  have l: "length (bytes_of m (Value b)) = slen (Value b)"
    using assms by (simp add: live_def length_bytes_of)
  have h: "valid_slice (m @ [x]) (head b)" for x
    using assms by (simp add: live_def valid_slice_extend)
  show ?thesis
    using assms h l
    by (simp add: Append_grown [OF False] live_def valid_slice_def grow_cap_def)
qed

lemma drain_live:
  assumes "live m b" and "0 < n"
  shows "drain n acc (m, b) =
     Some (Inr (acc @ bytes_of m (Value b), if slen (Value b) = 0 then b else snd (Clear b)))"
  using assms(1)
proof (induction "slen (Value b)" arbitrary: b acc rule: less_induct)
  case less
  have l: "length (bytes_of m (Value b)) = slen (Value b)"
    using less.prems by (simp add: live_def length_bytes_of)
  have h: "16 \<le> scap (head b)"
    using less.prems by (simp add: live_def)
  show ?case
  proof (cases "slen (Value b) = 0")
    case True
    then show ?thesis using l
      by (subst drain.simps) (simp add: Read_empty)
  next
    case False
    show ?thesis
    proof (cases "n < slen (Value b)")
      case True
      let ?b' = "snd (Read n (m, b))"
      have lv: "live m ?b'" using less.prems True by (rule live_Read_part)
      have sl: "slen (Value ?b') = slen (Value b) - n"
        by (simp add: Read_part [OF less.prems True])
      have lt: "slen (Value ?b') < slen (Value b)"
        using sl True assms(2) by simp
      have hd: "head ?b' = head b"
        by (simp add: Read_part [OF less.prems True])
      have cl: "snd (Clear ?b') = snd (Clear b)"
        using h by (simp add: Clear_live hd) (simp add: Read_part [OF less.prems True])
      have by': "bytes_of m (Value ?b') = drop n (bytes_of m (Value b))"
        using Bytes_Read_part [OF less.prems True] by (simp add: Bytes_def)
      have ne: "slen (Value ?b') \<noteq> 0" using sl True by simp
      have ih: "drain n (acc @ take n (bytes_of m (Value b))) (m, ?b') =
          Some (Inr ((acc @ take n (bytes_of m (Value b))) @ bytes_of m (Value ?b'),
                snd (Clear ?b')))"
        using less.hyps [OF lt lv] ne by simp
      have "drain n acc (m, b) = drain n (acc @ take n (bytes_of m (Value b))) (m, ?b')"
        by (subst drain.simps) (simp add: Read_part [OF less.prems True])
      then show ?thesis
        using ih False by (simp add: by' cl)
    next
      case ge: False
      then have le: "slen (Value b) \<le> n" by simp
      let ?c = "snd (Clear b)"
      have lc: "live m ?c" using less.prems by (rule live_Clear)
      have z: "slen (Value ?c) = 0" by (simp add: Clear_live [OF h])
      have bc: "bytes_of m (Value ?c) = []"
        using Bytes_Clear [OF less.prems] by (simp add: Bytes_def)
      have lt: "slen (Value ?c) < slen (Value b)" using z False by simp
      have ih: "drain n (acc @ bytes_of m (Value b)) (m, ?c) =
          Some (Inr ((acc @ bytes_of m (Value b)) @ bytes_of m (Value ?c), ?c))"
        using less.hyps [OF lt lc] z by simp
      have "drain n acc (m, b) = drain n (acc @ bytes_of m (Value b)) (m, ?c)"
        by (subst drain.simps) (simp add: Read_all [OF less.prems False le])
      then show ?thesis
        using ih False by (simp add: bc)
    qed
  qed
qed


lemma Clear_eqI:
  assumes "16 \<le> scap (head b)" and "head b' = head b" and "pool b' = pool b"
  shows "snd (Clear b') = snd (Clear b)"
  using assms by (cases b; cases b') (simp add: Clear_live)

lemma local32_live: "live [replicate 32 0] local32"
  by (simp add: live_def valid_slice_def is_nil_def local32_def)

text \<open>
  Claim C2. A live buffer is cleared and \<open>bs\<close> is appended; draining it with a destination
  of at least one byte ends, and yields exactly \<open>bs\<close>, in order, whether or not the
  append had to move the window to a new array. The buffer is then empty, and the next
  \<^verbatim>\<open>Read\<close> reports 0 bytes with \<^verbatim>\<open>io.EOF\<close>.
\<close>

theorem Append_drain_round_trip:
  assumes "live m b" and "0 < n"
  shows "fst (Clear b) = None \<and>
         Bytes (Append bs (m, snd (Clear b))) = bs \<and>
         drain n [] (Append bs (m, snd (Clear b))) = Some (Inr (bs, snd (Clear b))) \<and>
         Read n (fst (Append bs (m, snd (Clear b))), snd (Clear b)) =
           (Inr (0, Some EOF, []), snd (Clear b))"
proof -
  let ?c = "snd (Clear b)"
  let ?m1 = "fst (Append bs (m, ?c))"
  let ?b1 = "snd (Append bs (m, ?c))"
  have h: "16 \<le> scap (head b)"
    using assms(1) by (simp add: live_def)
  have lc: "live m ?c" using assms(1) by (rule live_Clear)
  have vc: "valid_slice m (Value ?c)" using lc by (simp add: live_def)
  have 1: "fst (Clear b) = None" by (simp add: Clear_live [OF h])
  have by1: "Bytes (Append bs (m, ?c)) = bs"
    using Bytes_Append [OF vc, of bs] Bytes_Clear [OF assms(1)] by simp
  have l1: "live ?m1 ?b1" using lc by (rule live_Append)
  have hd: "head ?b1 = head b"
    using Append_fields [of bs m ?c] by (simp add: Clear_live [OF h])
  have sl: "slen (Value ?b1) = length bs"
    using length_bytes_of [of ?m1 "Value ?b1"] l1 by1
    by (simp add: live_def Bytes_def case_prod_unfold)
  have fin: "(if slen (Value ?b1) = 0 then ?b1 else snd (Clear ?b1)) = ?c"
  proof (cases "bs = []")
    case True
    have le: "slen (Value ?c) + length bs \<le> scap (Value ?c)"
      using vc True by (simp add: valid_slice_def)
    have "?b1 = ?c"
      unfolding Append_in_place [OF le] using True by simp
    moreover have "slen (Value ?b1) = 0" using sl True by simp
    ultimately show ?thesis by simp
  next
    case False
    have f: "head ?b1 = head ?c" "pool ?b1 = pool ?c"
      using Append_fields [of bs m ?c] by simp_all
    have hc: "16 \<le> scap (head ?c)" "head ?c = head b" "pool ?c = pool b"
      using h by (simp_all add: Clear_live)
    have "snd (Clear ?b1) = snd (Clear ?c)"
      using hc(1) f by (rule Clear_eqI)
    moreover have "snd (Clear ?c) = snd (Clear b)"
      using h hc(2,3) by (rule Clear_eqI)
    ultimately show ?thesis using False by (simp add: sl)
  qed
  have "drain n [] (?m1, ?b1) = Some (Inr ([] @ bytes_of ?m1 (Value ?b1), ?c))"
    using drain_live [OF l1 assms(2), of "[]"] by (simp only: fin)
  then have 2: "drain n [] (Append bs (m, ?c)) = Some (Inr (bs, ?c))"
    using by1 by (simp add: Bytes_def case_prod_unfold)
  have 3: "Read n (?m1, ?c) = (Inr (0, Some EOF, []), ?c)"
    by (rule Read_empty) (simp add: Clear_live [OF h])
  show ?thesis using 1 by1 2 3 by blast
qed

theorem Append_drain_round_trip_witness:
  "live [replicate 32 0] local32 \<and> (0::nat) < 3 \<and>
   drain 3 [] (Append [104, 101, 108, 108, 111] ([replicate 32 0], snd (Clear local32))) =
     Some (Inr ([104, 101, 108, 108, 111], snd (Clear local32)))"
proof -
  have p: "(0::nat) < 3" by simp
  show ?thesis
    using local32_live p
      Append_drain_round_trip [OF local32_live p, of "[104, 101, 108, 108, 111]"]
    by blast
qed

subsection \<open>FillFrom\<close>

lemma FillFrom_eval:
  assumes "slen (Value b) \<le> scap (Value b)"
    and "rd (scap (Value b) - slen (Value b)) = (written, k, err)"
  shows "FillFrom rd (m, b) =
     (let m' = store_bytes m (tail_room (Value b)) 0
                 (take (scap (Value b) - slen (Value b)) written);
          full = \<lparr>base = base (Value b), low = low (Value b), slen = scap (Value b),
                   scap = scap (Value b)\<rparr>
      in case err of
           None \<Rightarrow>
             if 0 \<le> int (slen (Value b)) + k \<and> int (slen (Value b)) + k \<le> int (scap (Value b))
             then (Inr (k, None), m',
                   b\<lparr>Value := \<lparr>base = base (Value b), low = low (Value b),
                                  slen = nat (int (slen (Value b)) + k),
                                  scap = scap (Value b)\<rparr>\<rparr>)
             else (Inl SliceBounds, m', b\<lparr>Value := full\<rparr>)
         | Some e \<Rightarrow> (Inr (k, Some e), m', b\<lparr>Value := full\<rparr>))"
  using assms
  by (simp add: FillFrom_def Len_def reslice_def Let_def tail_room_def nat_diff_distrib'
      split: option.splits)


lemma store_tail_nth:
  assumes "base v = Some a" and "a < length m"
  shows "store_bytes m (tail_room v) 0 W ! a =
     take (low v + slen v) (m ! a) @ W @ drop (low v + slen v + length W) (m ! a)"
  using assms by (simp add: store_bytes_def tail_room_def)

lemma drop_low_store_tail:
  assumes "valid_slice m v" and "base v = Some a"
  shows "drop (low v) (store_bytes m (tail_room v) 0 W ! a) =
     bytes_of m v @ W @ drop (low v + slen v + length W) (m ! a)"
proof -
  let ?arr = "m ! a"
  have a: "a < length m" and f: "low v + scap v \<le> length ?arr" and le: "slen v \<le> scap v"
    using assms by (auto simp: valid_slice_def)
  have 1: "drop (low v) (take (low v + slen v) ?arr) = take (slen v) (drop (low v) ?arr)"
    by (simp add: drop_take)
  have 3: "low v \<le> length (take (low v + slen v) ?arr)"
    using f le by simp
  have "drop (low v) (take (low v + slen v) ?arr @ W @ drop (low v + slen v + length W) ?arr) =
      take (slen v) (drop (low v) ?arr) @ W @ drop (low v + slen v + length W) ?arr"
    using 3 by (simp add: 1)
  then show ?thesis
    by (simp only: store_tail_nth [OF assms(2) a] bytes_of_def assms(2) option.case)
qed

lemma store_tail_outside:
  assumes "valid_slice m v" and "base v = Some a" and "length W \<le> scap v - slen v"
  shows "take (low v + slen v) (store_bytes m (tail_room v) 0 W ! a) =
           take (low v + slen v) (m ! a)"
    and "drop (low v + scap v) (store_bytes m (tail_room v) 0 W ! a) =
           drop (low v + scap v) (m ! a)"
proof -
  let ?arr = "m ! a"
  have a: "a < length m" and f: "low v + scap v \<le> length ?arr" and le: "slen v \<le> scap v"
    using assms by (auto simp: valid_slice_def)
  have l: "length (take (low v + slen v) ?arr) = low v + slen v"
    using f le by simp
  show "take (low v + slen v) (store_bytes m (tail_room v) 0 W ! a) =
           take (low v + slen v) (m ! a)"
    using l by (simp add: store_tail_nth [OF assms(2) a])
  have "drop (low v + scap v)
          (take (low v + slen v) ?arr @ W @ drop (low v + slen v + length W) ?arr) =
        drop (low v + scap v - (low v + slen v) - length W)
          (drop (low v + slen v + length W) ?arr)"
    using l assms(3) le by simp
  also have "\<dots> = drop (low v + scap v) ?arr"
    using assms(3) le by (simp add: add.commute)
  finally show "drop (low v + scap v) (store_bytes m (tail_room v) 0 W ! a) =
           drop (low v + scap v) (m ! a)"
    by (simp only: store_tail_nth [OF assms(2) a])
qed


lemma FillFrom_store:
  assumes "slen (Value b) \<le> scap (Value b)"
    and "rd (scap (Value b) - slen (Value b)) = (written, k, err)"
  shows "fst (snd (FillFrom rd (m, b))) =
     store_bytes m (tail_room (Value b)) 0 (take (scap (Value b) - slen (Value b)) written)"
  by (simp add: FillFrom_eval [where rd = rd, OF assms] Let_def split: option.splits)

lemma FillFrom_ok:
  assumes "slen (Value b) \<le> scap (Value b)"
    and "rd (scap (Value b) - slen (Value b)) = (written, k, None)"
    and "0 \<le> k" and "k \<le> int (scap (Value b) - slen (Value b))"
  shows "fst (FillFrom rd (m, b)) = Inr (k, None)"
    and "Value (snd (snd (FillFrom rd (m, b)))) =
       \<lparr>base = base (Value b), low = low (Value b), slen = slen (Value b) + nat k,
          scap = scap (Value b)\<rparr>"
  using assms(1,3,4)
  by (simp_all add: FillFrom_eval [where rd = rd, OF assms(1,2)] Let_def nat_add_distrib)

lemma FillFrom_failed:
  assumes "slen (Value b) \<le> scap (Value b)"
    and "rd (scap (Value b) - slen (Value b)) = (written, k, Some e)"
  shows "fst (FillFrom rd (m, b)) = Inr (k, Some e)"
    and "Value (snd (snd (FillFrom rd (m, b)))) =
       \<lparr>base = base (Value b), low = low (Value b), slen = scap (Value b),
          scap = scap (Value b)\<rparr>"
  by (simp_all add: FillFrom_eval [where rd = rd, OF assms] Let_def)

text \<open>
  Claim C6, amended. \<^verbatim>\<open>FillFrom\<close> hands the reader the capacity behind the window and
  nothing else: the store is unchanged outside that part of the array, so every byte of
  the window stays. For a reader that keeps the contract of \<^verbatim>\<open>io.Reader\<close> (it stored
  the \<open>k\<close> bytes that it reports, \<open>0 \<le> k\<close>, \<open>k\<close> at most the room) the count and the
  error are returned as the reader gave them; without an error the window grows by exactly
  \<open>k\<close> bytes, the bytes read; with an error the old content is the front of the window,
  which is left at the whole capacity.
\<close>

theorem FillFrom_grows_into_tail:
  assumes v: "valid_slice m (Value b)"
    and r: "rd (scap (Value b) - slen (Value b)) = (written, k, err)"
    and k: "0 \<le> k" "k \<le> int (scap (Value b) - slen (Value b))" "nat k \<le> length written"
  shows "fst (FillFrom rd (m, b)) = Inr (k, err) \<and>
     take (slen (Value b)) (Bytes (snd (FillFrom rd (m, b)))) = Bytes (m, b) \<and>
     (err = None \<longrightarrow>
        Len (Some (snd (snd (FillFrom rd (m, b))))) = Len (Some b) + k \<and>
        Bytes (snd (FillFrom rd (m, b))) = Bytes (m, b) @ take (nat k) written) \<and>
     (err \<noteq> None \<longrightarrow>
        Len (Some (snd (snd (FillFrom rd (m, b))))) = int (scap (Value b))) \<and>
     length (fst (snd (FillFrom rd (m, b)))) = length m \<and>
     (\<forall>a. base (Value b) \<noteq> Some a \<longrightarrow> fst (snd (FillFrom rd (m, b))) ! a = m ! a) \<and>
     (\<forall>a. base (Value b) = Some a \<longrightarrow>
        take (low (Value b) + slen (Value b)) (fst (snd (FillFrom rd (m, b))) ! a) =
          take (low (Value b) + slen (Value b)) (m ! a) \<and>
        drop (low (Value b) + scap (Value b)) (fst (snd (FillFrom rd (m, b))) ! a) =
          drop (low (Value b) + scap (Value b)) (m ! a))"
proof -
  let ?v = "Value b"
  let ?W = "take (scap ?v - slen ?v) written"
  let ?m' = "fst (snd (FillFrom rd (m, b)))"
  let ?b' = "snd (snd (FillFrom rd (m, b)))"
  have le: "slen ?v \<le> scap ?v" using v by (simp add: valid_slice_def)
  have m': "?m' = store_bytes m (tail_room ?v) 0 ?W"
    using FillFrom_store [where rd = rd, OF le r] .
  have lW: "length ?W \<le> scap ?v - slen ?v" by simp
  have kW: "nat k \<le> length ?W" using k by simp
  have tW: "take (nat k) ?W = take (nat k) written" using k by (simp add: min_def)
  have old: "length (bytes_of m ?v) = slen ?v" using v by (rule length_bytes_of)
  have B: "Bytes (snd (FillFrom rd (m, b))) = bytes_of ?m' (Value ?b')"
    by (simp add: Bytes_def case_prod_unfold)
  have res: "fst (FillFrom rd (m, b)) = Inr (k, err)"
  proof (cases err)
    case None
    then show ?thesis
      using FillFrom_ok(1) [where rd = rd and written = written, OF le _ k(1,2)] r by simp
  next
    case (Some e)
    then show ?thesis
      using FillFrom_failed(1) [where rd = rd and written = written and k = k, OF le] r by simp
  qed
  have val: "base (Value ?b') = base ?v \<and> low (Value ?b') = low ?v \<and>
      slen (Value ?b') = (if err = None then slen ?v + nat k else scap ?v)"
  proof (cases err)
    case None
    then show ?thesis
      using FillFrom_ok(2) [where rd = rd and written = written, OF le _ k(1,2)] r by simp
  next
    case (Some e)
    then show ?thesis
      using FillFrom_failed(2) [where rd = rd and written = written and k = k, OF le] r by simp
  qed
  have sl: "slen ?v \<le> slen (Value ?b')" using val le by simp
  have len: "length ?m' = length m" by (simp add: m' length_store_bytes)
  have other: "\<forall>a. base ?v \<noteq> Some a \<longrightarrow> ?m' ! a = m ! a"
    by (simp add: m' store_bytes_other tail_room_def)
  have outside: "\<forall>a. base ?v = Some a \<longrightarrow>
        take (low ?v + slen ?v) (?m' ! a) = take (low ?v + slen ?v) (m ! a) \<and>
        drop (low ?v + scap ?v) (?m' ! a) = drop (low ?v + scap ?v) (m ! a)"
    using store_tail_outside [OF v _ lW] by (simp add: m')
  have content: "bytes_of ?m' (Value ?b') =
      take (slen (Value ?b')) (bytes_of m ?v @ ?W @ replicate 0 0) \<or>
      (\<exists>rest. bytes_of ?m' (Value ?b') = take (slen (Value ?b')) (bytes_of m ?v @ ?W @ rest))"
  proof (cases "base ?v")
    case None
    then have "scap ?v = 0" using v by (simp add: valid_slice_def)
    then show ?thesis using None val le by (simp add: bytes_of_def)
  next
    case (Some a)
    have "bytes_of ?m' (Value ?b') = take (slen (Value ?b')) (drop (low ?v) (?m' ! a))"
      using val Some by (simp add: bytes_of_def)
    then show ?thesis
      using drop_low_store_tail [OF v Some, of ?W] by (simp only: m') blast
  qed
  then obtain rest where c: "bytes_of ?m' (Value ?b') =
      take (slen (Value ?b')) (bytes_of m ?v @ ?W @ rest)"
    by blast
  have pre: "take (slen ?v) (Bytes (snd (FillFrom rd (m, b)))) = Bytes (m, b)"
    unfolding B c using old sl by (simp add: Bytes_def min_def)
  have ok: "err = None \<longrightarrow>
        Len (Some ?b') = Len (Some b) + k \<and>
        Bytes (snd (FillFrom rd (m, b))) = Bytes (m, b) @ take (nat k) written"
  proof
    assume e: "err = None"
    have s: "slen (Value ?b') = slen ?v + nat k" using val e by simp
    have t: "take (slen ?v + nat k) (bytes_of m ?v @ ?W @ rest) =
        bytes_of m ?v @ take (nat k) ?W"
      using old kW by simp
    have "Bytes (snd (FillFrom rd (m, b))) = bytes_of m ?v @ take (nat k) written"
      unfolding B c s t tW by (rule refl)
    then have "Bytes (snd (FillFrom rd (m, b))) = Bytes (m, b) @ take (nat k) written"
      by (simp add: Bytes_def)
    moreover have "Len (Some ?b') = Len (Some b) + k"
      using s k(1) by (simp add: Len_def)
    ultimately show "Len (Some ?b') = Len (Some b) + k \<and>
        Bytes (snd (FillFrom rd (m, b))) = Bytes (m, b) @ take (nat k) written"
      by blast
  qed
  have bad: "err \<noteq> None \<longrightarrow> Len (Some ?b') = int (scap ?v)"
    using val by (simp add: Len_def)
  show ?thesis
    using res pre ok bad len other outside by blast
qed


lemma hello_valid: "valid_slice hello_mem (Value hello_buf)"
  by (simp add: valid_slice_def hello_mem_def hello_buf_def)

lemma hello_Bytes: "Bytes (hello_mem, hello_buf) = [104, 101, 108, 108, 111]"
  by (simp add: Bytes_def bytes_of_def hello_mem_def hello_buf_def)

theorem FillFrom_grows_into_tail_witness:
  "valid_slice hello_mem (Value hello_buf) \<and>
   three_bytes (scap (Value hello_buf) - slen (Value hello_buf)) = ([33, 34, 35], 3, None) \<and>
   fst (FillFrom three_bytes (hello_mem, hello_buf)) = Inr (3, None) \<and>
   Len (Some (snd (snd (FillFrom three_bytes (hello_mem, hello_buf))))) = 8 \<and>
   Bytes (snd (FillFrom three_bytes (hello_mem, hello_buf))) =
     [104, 101, 108, 108, 111, 33, 34, 35]"
proof -
  have r: "three_bytes (scap (Value hello_buf) - slen (Value hello_buf)) =
      ([33, 34, 35], 3, None)"
    by (simp add: three_bytes_def hello_buf_def)
  have k: "(0::int) \<le> 3" "(3::int) \<le> int (scap (Value hello_buf) - slen (Value hello_buf))"
    "nat 3 \<le> length [33, 34, 35 :: byte]"
    by (simp_all add: hello_buf_def)
  have l: "Len (Some hello_buf) = 5" by (simp add: Len_def hello_buf_def)
  have t: "take (nat 3) [33, 34, 35 :: byte] = [33, 34, 35]" by simp
  note inst = FillFrom_grows_into_tail [where rd = three_bytes, OF hello_valid r k]
  have 1: "fst (FillFrom three_bytes (hello_mem, hello_buf)) = Inr (3, None)"
    using inst by blast
  have 2: "Len (Some (snd (snd (FillFrom three_bytes (hello_mem, hello_buf))))) = 8"
    using inst by (simp add: l)
  have 3: "Bytes (snd (FillFrom three_bytes (hello_mem, hello_buf))) =
     [104, 101, 108, 108, 111, 33, 34, 35]"
    using inst by (simp add: hello_Bytes)
  show ?thesis using hello_valid r 1 2 3 by blast
qed

text \<open>
  Claim C6, as stated: the window grows by exactly the number of bytes read. A reader that
  reads nothing and fails leaves the window of 5 bytes with a length of 16, the whole
  capacity.
\<close>

theorem FillFrom_failure_counterexample:
  "fst (FillFrom failing (hello_mem, hello_buf)) = Inr (0, Some (SourceFailure 1)) \<and>
   Len (Some hello_buf) = 5 \<and>
   Len (Some (snd (snd (FillFrom failing (hello_mem, hello_buf))))) = 16 \<and>
   \<not> (Len (Some (snd (snd (FillFrom failing (hello_mem, hello_buf))))) =
        Len (Some hello_buf) + 0)"
  by (simp add: FillFrom_def Len_def Let_def reslice_def failing_def hello_buf_def)

subsection \<open>The window and the backing slice\<close>



lemma Clear_window: "fst (Clear b) = None \<Longrightarrow> window_in_head (snd (Clear b))"
  by (auto simp: Clear_def window_in_head_def reslice_def defaultOffset_def Let_def
      split: if_splits)

lemma SliceBack_window: "fst (SliceBack k b) = None \<Longrightarrow> window_in_head (snd (SliceBack k b))"
  by (auto simp: SliceBack_def window_in_head_def reslice_def Let_def split: if_splits)

lemma Prepend_window:
  "fst (Prepend d (m, b)) = None \<Longrightarrow> window_in_head (snd (snd (Prepend d (m, b))))"
  using SliceBack_window [of "int (length d)" b]
  by (cases "SliceBack (int (length d)) b") (auto simp: Prepend_def split: option.splits)















lemma Prepend_crosses:
  assumes "offset b < int (length c)"
  shows "Prepend c (m, b) = (Some NegativeOffset, m, b)"
  using assms by (simp add: Prepend_def SliceBack_def Let_def)

lemma Prepend_fits_eval:
  assumes w: "window_in_head b" and k: "int (length c) \<le> offset b"
  shows "Prepend c (m, b) =
     (None,
      store_bytes m
        \<lparr>base = base (head b), low = low (head b) + nat (offset b - int (length c)),
           slen = slen (Value b) + length c,
           scap = scap (head b) - nat (offset b - int (length c))\<rparr> 0 c,
      b\<lparr>Value := \<lparr>base = base (head b), low = low (head b) + nat (offset b - int (length c)),
           slen = slen (Value b) + length c,
           scap = scap (head b) - nat (offset b - int (length c))\<rparr>,
         offset := offset b - int (length c)\<rparr>)"
proof -
  note d = window_in_headD [OF w]
  have n: "nat (offset b + int (slen (Value b)) - (offset b - int (length c))) =
      slen (Value b) + length c"
    by simp
  have r: "reslice (head b) (offset b - int (length c)) (offset b + int (slen (Value b))) =
      Inr \<lparr>base = base (head b), low = low (head b) + nat (offset b - int (length c)),
           slen = slen (Value b) + length c,
           scap = scap (head b) - nat (offset b - int (length c))\<rparr>"
    using d k by (simp add: reslice_def n)
  show ?thesis
    using k by (simp add: Prepend_def SliceBack_def Let_def r go_copy_def)
qed

lemma Prepend_fits:
  assumes w: "window_in_head b" and v: "valid_slice m (head b)"
    and k: "int (length c) \<le> offset b"
  shows "fst (Prepend c (m, b)) = None"
    and "offset (snd (snd (Prepend c (m, b)))) = offset b - int (length c)"
    and "head (snd (snd (Prepend c (m, b)))) = head b"
    and "window_in_head (snd (snd (Prepend c (m, b))))"
    and "valid_slice (fst (snd (Prepend c (m, b)))) (head b)"
    and "Bytes (snd (Prepend c (m, b))) = c @ Bytes (m, b)"
proof -
  note d = window_in_headD [OF w]
  note e = Prepend_fits_eval [OF w k, of m]
  let ?o' = "nat (offset b - int (length c))"
  let ?V = "\<lparr>base = base (head b), low = low (head b) + ?o',
             slen = slen (Value b) + length c, scap = scap (head b) - ?o'\<rparr>"
  show 1: "fst (Prepend c (m, b)) = None" by (simp add: e)
  show "offset (snd (snd (Prepend c (m, b)))) = offset b - int (length c)" by (simp add: e)
  show "head (snd (snd (Prepend c (m, b)))) = head b" by (simp add: e)
  show "window_in_head (snd (snd (Prepend c (m, b))))" using 1 by (rule Prepend_window)
  have o: "?o' + length c = nat (offset b)" using k d(1) by linarith
  have fitV: "slen ?V \<le> scap ?V" using d k by simp
  have c0: "length c = 0" if "scap (head b) = 0"
  proof -
    have "int (length c) \<le> 0" using d(2) k that by linarith
    then show ?thesis by simp
  qed
  have ole: "?o' \<le> scap (head b)" using d(1,2) k by linarith
  have vV: "valid_slice m ?V"
    using v fitV c0 ole by (auto simp: valid_slice_def split: option.splits)
  have "valid_slice (store_bytes m ?V 0 c) (head b)"
    using v vV by (rule valid_slice_store) (use fitV in simp)
  then show "valid_slice (fst (snd (Prepend c (m, b)))) (head b)" by (simp add: e)
  show "Bytes (snd (Prepend c (m, b))) = c @ Bytes (m, b)"
  proof (cases "base (head b)")
    case None
    then have "scap (head b) = 0" using v by (simp add: valid_slice_def)
    then have "c = []" using c0 by simp
    then show ?thesis unfolding e using None d(3) by (simp add: Bytes_def bytes_of_def)
  next
    case (Some a)
    let ?arr = "m ! a"
    have a: "a < length m" and f: "low (head b) + scap (head b) \<le> length ?arr"
      using v Some by (auto simp: valid_slice_def)
    have l: "length (take (low (head b) + ?o') ?arr) = low (head b) + ?o'"
      using f d k by simp
    have R: "drop (low (head b) + ?o' + length c) ?arr = drop (low (Value b)) ?arr"
      using o by (simp add: d(4) add.assoc)
    have "bytes_of (store_bytes m ?V 0 c) ?V =
        take (slen (Value b) + length c)
          (drop (low (head b) + ?o')
            (take (low (head b) + ?o') ?arr @ c @ drop (low (head b) + ?o' + length c) ?arr))"
      using a by (simp add: bytes_of_def store_bytes_def Some)
    also have "\<dots> = take (slen (Value b) + length c) (c @ drop (low (Value b)) ?arr)"
      using l by (simp only: R drop_append) simp
    also have "\<dots> = c @ take (slen (Value b)) (drop (low (Value b)) ?arr)"
      by simp
    finally show ?thesis
      using d(3) Some by (simp add: e Bytes_def bytes_of_def)
  qed
qed










lemma Append_store_valid:
  assumes "live m b"
  shows "valid_slice (fst (Append d (m, b))) (head b)"
  using live_Append [OF assms, of d] by (simp add: live_def Append_fields)




lemma cleared32_Clear: "Clear local32 = (None, cleared32)"
  by (simp add: Clear_def reslice_def defaultOffset_def Let_def local32_def cleared32_def)










subsection \<open>Reset and the headroom\<close>

lemma Reset_fields:
  "Value (Reset b) = head b \<and> offset (Reset b) = defaultOffset \<and> head (Reset b) = head b \<and>
   Len (Some (Reset b)) = int (slen (head b))"
  by (simp add: Reset_def Len_def)

text \<open>
  Claim C4. \<^verbatim>\<open>Reset\<close> makes the window the whole backing slice, from position 0 and
  with the full length, and sets the offset to 16. On the buffer that
  \<^verbatim>\<open>NewLocalBuffer(32)\<close> returns the length is then 32 and the window starts at
  position 0, but the window is not \<^verbatim>\<open>head[offset : offset+Len]\<close>: \<^verbatim>\<open>SliceBack(0)\<close>,
  which leaves the fresh buffer as it is, computes \<^verbatim>\<open>head[16:48]\<close> and panics, and so
  does \<^verbatim>\<open>SliceBack(1)\<close> with \<^verbatim>\<open>head[15:48]\<close>.
\<close>

theorem Reset_leaves_offset_at_headroom:
  "Value (Reset b) = head b \<and> offset (Reset b) = 16 \<and>
   Len (Some (Reset local32)) = 32 \<and> low (Value (Reset local32)) = 0 \<and>
   \<not> window_in_head (Reset local32) \<and>
   SliceBack 0 (Reset local32) = (Some SliceBounds, Reset local32) \<and>
   SliceBack 1 (Reset local32) = (Some SliceBounds, Reset local32) \<and>
   SliceBack 0 local32 = (None, local32)"
  by (simp add: Reset_def Len_def defaultOffset_def window_in_head_def SliceBack_def
      reslice_def local32_def)

text \<open>
  Claim C1. After \<^verbatim>\<open>Reset\<close> on the buffer that \<^verbatim>\<open>NewLocalBuffer(32)\<close> returns,
  \<^verbatim>\<open>Prepend\<close> of no bytes and \<^verbatim>\<open>Prepend\<close> of two bytes panic on the slice bounds
  (\<^verbatim>\<open>head[16:48]\<close>, \<^verbatim>\<open>head[14:48]\<close>) and leave the store and the buffer as they
  were; after \<^verbatim>\<open>Clear\<close> the same two bytes are prepended.
\<close>

theorem Prepend_after_Reset_panics:
  "Prepend [] ([replicate 32 0], Reset local32) =
     (Some SliceBounds, [replicate 32 0], Reset local32) \<and>
   Prepend [18, 52] ([replicate 32 0], Reset local32) =
     (Some SliceBounds, [replicate 32 0], Reset local32) \<and>
   fst (Prepend [18, 52] ([replicate 32 0], cleared32)) = None \<and>
   Bytes (snd (Prepend [18, 52] ([replicate 32 0], cleared32))) = [18, 52]"
  by (simp add: Prepend_def SliceBack_def reslice_def Reset_def defaultOffset_def local32_def
      cleared32_def go_copy_def store_bytes_def Bytes_def bytes_of_def)


lemma case_no_panic:
  "fst x = None \<Longrightarrow>
   (case x of (None, st') \<Rightarrow> f st' | (Some e, st') \<Rightarrow> g e st') = f (snd x)"
  by (cases x) auto

lemma prepend_all_append:
  "prepend_all (xs @ ys) st =
     (case prepend_all xs st of
        (Some e, st') \<Rightarrow> (Some e, st')
      | (None, st') \<Rightarrow> prepend_all ys st')"
  by (induction xs arbitrary: st) (auto split: prod.splits option.splits)

lemma prepend_all_fits:
  assumes "window_in_head b" and "valid_slice m (head b)"
    and "int (sum_list (map length cs)) \<le> offset b"
  shows "fst (prepend_all cs (m, b)) = None \<and>
     Bytes (snd (prepend_all cs (m, b))) = concat (rev cs) @ Bytes (m, b) \<and>
     offset (snd (snd (prepend_all cs (m, b)))) = offset b - int (sum_list (map length cs)) \<and>
     head (snd (snd (prepend_all cs (m, b)))) = head b \<and>
     window_in_head (snd (snd (prepend_all cs (m, b)))) \<and>
     valid_slice (fst (snd (prepend_all cs (m, b)))) (head b)"
  using assms
proof (induction cs arbitrary: m b)
  case Nil
  then show ?case by simp
next
  case (Cons c cs)
  let ?m' = "fst (snd (Prepend c (m, b)))"
  let ?b' = "snd (snd (Prepend c (m, b)))"
  have k: "int (length c) \<le> offset b" using Cons.prems(3) by simp
  note p = Prepend_fits [OF Cons.prems(1,2) k]
  have P: "Prepend c (m, b) = (None, ?m', ?b')"
    using p(1) by (simp add: prod_eq_iff)
  have step: "prepend_all (c # cs) (m, b) = prepend_all cs (?m', ?b')"
    using case_no_panic [OF p(1)] by simp
  have v': "valid_slice ?m' (head ?b')" using p(5) by (simp only: p(3))
  have s': "int (sum_list (map length cs)) \<le> offset ?b'"
    using Cons.prems(3) by (simp add: p(2))
  note ih = Cons.IH [OF p(4) v' s']
  show ?case
    unfolding step using ih p(6) by (simp add: p(2,3))
qed

lemma prepend_all_crosses:
  assumes "window_in_head b" and "valid_slice m (head b)"
    and "int (sum_list (map length cs1)) \<le> offset b"
    and "offset b < int (sum_list (map length cs1)) + int (length c)"
  shows "prepend_all (cs1 @ c # cs2) (m, b) =
     (Some NegativeOffset, snd (prepend_all cs1 (m, b)))"
proof -
  note f = prepend_all_fits [OF assms(1,2,3)]
  let ?m1 = "fst (snd (prepend_all cs1 (m, b)))"
  let ?b1 = "snd (snd (prepend_all cs1 (m, b)))"
  have e: "prepend_all cs1 (m, b) = (None, ?m1, ?b1)"
    using f by (simp add: prod_eq_iff)
  have lt: "offset ?b1 < int (length c)" using f assms(4) by simp
  have n: "fst (prepend_all cs1 (m, b)) = None" using f by simp
  have "prepend_all (cs1 @ c # cs2) (m, b) = prepend_all (c # cs2) (?m1, ?b1)"
    using case_no_panic [OF n] by (simp add: prepend_all_append del: prepend_all.simps)
  also have "\<dots> = (Some NegativeOffset, ?m1, ?b1)"
    by (subst prepend_all.simps) (simp only: Prepend_crosses [OF lt] prod.case option.case)
  finally show ?thesis by simp
qed

text \<open>
  After \<^verbatim>\<open>Clear\<close> the budget is as the doc comment of \<^verbatim>\<open>Prepend\<close> says: chunks of
  at most 16 bytes in total are all prepended, the window being the chunks in reverse
  order of the calls, and the chunk that takes the total beyond 16 panics with
  "Negative buffer offset." and leaves the store and the buffer as the chunks before it
  left them.
\<close>

lemma Prepend_budget_after_Clear:
  assumes "live m b"
  shows "(int (sum_list (map length cs)) \<le> 16 \<longrightarrow>
            fst (prepend_all cs (m, snd (Clear b))) = None \<and>
            Bytes (snd (prepend_all cs (m, snd (Clear b)))) = concat (rev cs)) \<and>
         (int (sum_list (map length cs)) \<le> 16 \<and>
          16 < int (sum_list (map length cs)) + int (length c) \<longrightarrow>
            prepend_all (cs @ c # cs2) (m, snd (Clear b)) =
              (Some NegativeOffset, snd (prepend_all cs (m, snd (Clear b)))))"
proof -
  let ?c = "snd (Clear b)"
  have h16: "16 \<le> scap (head b)" using assms by (simp add: live_def)
  have w: "window_in_head ?c"
    by (rule Clear_window) (simp add: Clear_live [OF h16])
  have v: "valid_slice m (head ?c)"
    using assms by (simp add: Clear_live [OF h16] live_def)
  have o: "offset ?c = 16" by (simp add: Clear_live [OF h16])
  have e: "Bytes (m, ?c) = []" using assms by (rule Bytes_Clear)
  have 1: "int (sum_list (map length cs)) \<le> 16 \<longrightarrow>
            fst (prepend_all cs (m, ?c)) = None \<and>
            Bytes (snd (prepend_all cs (m, ?c))) = concat (rev cs)"
    using prepend_all_fits [OF w v, of cs] by (simp add: o e)
  have 2: "int (sum_list (map length cs)) \<le> 16 \<and>
          16 < int (sum_list (map length cs)) + int (length c) \<longrightarrow>
            prepend_all (cs @ c # cs2) (m, ?c) =
              (Some NegativeOffset, snd (prepend_all cs (m, ?c)))"
    using prepend_all_crosses [OF w v, of cs c cs2] by (simp add: o)
  show ?thesis using 1 2 by blast
qed

end
